theory Spec2Isabelle
  imports Main "HOL-Library.Char_ord" "HOL-Library.List_Lexorder"
begin

section \<open>Strings and containers of the Python sources\<close>

text \<open>
  Python strings are modelled as \<open>string\<close>, one \<open>char\<close> per code point below 256.
  \<open>str.strip()\<close> removes leading and trailing whitespace; below 256 the whitespace
  code points of Python are 9..13, 28..32, 133 and 160.
\<close>

definition is_space :: "char \<Rightarrow> bool" where
  "is_space c = (let n = (of_char c :: nat)
                 in (9 \<le> n \<and> n \<le> 13) \<or> (28 \<le> n \<and> n \<le> 32) \<or> n = 133 \<or> n = 160)"

definition strip :: "string \<Rightarrow> string" where
  "strip s = rev (dropWhile is_space (rev (dropWhile is_space s)))"

text \<open>\<open>s.split(sep)\<close> for a one-character separator: never returns an empty list.\<close>

fun split_on :: "char \<Rightarrow> string \<Rightarrow> string list" where
  "split_on sep [] = [[]]"
| "split_on sep (c # cs) =
     (if c = sep then [] # split_on sep cs
      else (case split_on sep cs of
              [] \<Rightarrow> [[c]]
            | w # ws \<Rightarrow> (c # w) # ws))"

text \<open>\<open>[d.strip() for d in s.split(",") if d.strip()]\<close>\<close>

definition split_commas :: "string \<Rightarrow> string list" where
  "split_commas s = filter (\<lambda>d. d \<noteq> []) (map strip (split_on CHR '','' s))"

text \<open>
  A Python \<open>dict\<close> is an association list in insertion order with distinct keys:
  assigning to an existing key replaces the value and keeps the key's position;
  assigning to a new key appends it.
\<close>

type_synonym ('k, 'v) dict = "('k \<times> 'v) list"

fun dict_set :: "('k, 'v) dict \<Rightarrow> 'k \<Rightarrow> 'v \<Rightarrow> ('k, 'v) dict" where
  "dict_set [] k v = [(k, v)]"
| "dict_set ((k', v') # kvs) k v =
     (if k' = k then (k, v) # kvs else (k', v') # dict_set kvs k v)"

definition dict_get :: "('k, 'v) dict \<Rightarrow> 'k \<Rightarrow> 'v option" where
  "dict_get d k = map_of d k"

definition dict_keys :: "('k, 'v) dict \<Rightarrow> 'k list" where
  "dict_keys d = map fst d"

definition dict_values :: "('k, 'v) dict \<Rightarrow> 'v list" where
  "dict_values d = map snd d"

text \<open>
  A Python \<open>set\<close> of ids is a list without repetition. Python fixes no iteration order
  for a set; the order of the list stands for whichever order the interpreter picks, and
  the theorems about the traversals below hold for every list.
\<close>

definition set_add :: "'a list \<Rightarrow> 'a \<Rightarrow> 'a list" where
  "set_add xs x = (if x \<in> set xs then xs else xs @ [x])"

text \<open>
  \<open>Dict[str, Set[str]]\<close>, read with \<open>g.get(k, set())\<close> and written with
  \<open>g[k].add(x)\<close> on a \<open>defaultdict(set)\<close>.
\<close>

type_synonym graph = "(string, string list) dict"

definition adj :: "graph \<Rightarrow> string \<Rightarrow> string list" where
  "adj g k = (case dict_get g k of None \<Rightarrow> [] | Some xs \<Rightarrow> xs)"

definition graph_add :: "graph \<Rightarrow> string \<Rightarrow> string \<Rightarrow> graph" where
  "graph_add g k x = dict_set g k (set_add (adj g k) x)"


section \<open>Rows and raw records\<close>

text \<open>
  A raw record is one element of the \<open>rows\<close> list of the JSON document. An element that
  is not a JSON object is \<open>None\<close>. Of an object the model keeps the fields the
  loaders read: \<open>id\<close>, \<open>name\<close>, \<open>args\<close>, \<open>expr\<close> and \<open>scope\<close> are absent or
  strings, \<open>locked\<close> is the truth value of the field (absent is false), and
  \<open>depends\<close> and \<open>sources\<close> are a string, a list of strings, or anything else.
\<close>

datatype field_list = FStr string | FList "string list" | FOther

record raw_row =
  raw_id :: "string option"
  raw_locked :: bool
  raw_name :: "string option"
  raw_args :: "string option"
  raw_expr :: "string option"
  raw_scope :: "string option"
  raw_depends :: field_list
  raw_sources :: field_list

record row =
  rid :: string
  locked :: bool
  name :: string
  args :: string
  expr :: string
  scope :: "string option"
  depends :: "string list"
  sources :: "string list"

definition str_or_empty :: "string option \<Rightarrow> string" where
  "str_or_empty v = (case v of None \<Rightarrow> [] | Some s \<Rightarrow> s)"

text \<open>
  \<open>deps = r.get("depends", [])\<close>; a string is split at commas; the row gets
  \<open>deps if isinstance(deps, list) else []\<close>.
\<close>

fun norm_field :: "field_list \<Rightarrow> string list" where
  "norm_field (FStr s) = split_commas s"
| "norm_field (FList xs) = xs"
| "norm_field FOther = []"


section \<open>The result cache (\<open>BuildCache\<close>)\<close>

text \<open>
  \<open>entries: Dict[str, Dict[str, Any]]\<close>. An entry is itself a dictionary; the values
  stored by \<open>put\<close> are two strings and the time stamp, which the caller's clock
  supplies.
\<close>

datatype cache_val = CStr string | CTime int

type_synonym cache_entry = "(string, cache_val) dict"

type_synonym build_cache = "(string, cache_entry) dict"

text \<open>
  \<open>entry = self.entries.get(target_id)\<close>;
  \<open>if entry and entry.get("input_hash") == input_hash: return entry.get("output_hash")\<close>;
  \<open>return None\<close>. An empty dictionary is falsy.
\<close>

definition cache_get :: "build_cache \<Rightarrow> string \<Rightarrow> string \<Rightarrow> cache_val option" where
  "cache_get entries target_id input_hash =
     (case dict_get entries target_id of
        None \<Rightarrow> None
      | Some entry \<Rightarrow>
          if entry \<noteq> [] \<and> dict_get entry ''input_hash'' = Some (CStr input_hash)
          then dict_get entry ''output_hash''
          else None)"

definition cache_put :: "build_cache \<Rightarrow> string \<Rightarrow> string \<Rightarrow> string \<Rightarrow> int \<Rightarrow> build_cache" where
  "cache_put entries target_id input_hash output_hash now =
     dict_set entries target_id
       [(''input_hash'', CStr input_hash),
        (''output_hash'', CStr output_hash),
        (''timestamp'', CTime now)]"


section \<open>The runtime resolver (\<open>topdown_runtime.td\<close>)\<close>

datatype py_error = ValueError | TopDownError | TopDownIdNotFound | AttributeError | RecursionError

text \<open>
  The store is the value of \<open>store.get("rows")\<close>: \<open>None\<close> when it is not a list.
  The search for the project root and the reading of the file are the caller's.
\<close>

definition td_norm_field :: "field_list \<Rightarrow> string list" where
  "td_norm_field f = (case f of FStr s \<Rightarrow> split_commas s | FList xs \<Rightarrow> xs | FOther \<Rightarrow> [])"

definition td_row :: "string \<Rightarrow> raw_row \<Rightarrow> row" where
  "td_row wanted r =
     \<lparr> rid = wanted,
       locked = raw_locked r,
       name = str_or_empty (raw_name r),
       args = str_or_empty (raw_args r),
       expr = str_or_empty (raw_expr r),
       scope = raw_scope r,
       depends = td_norm_field (raw_depends r),
       sources = td_norm_field (raw_sources r) \<rparr>"

fun td_search :: "string \<Rightarrow> raw_row option list \<Rightarrow> py_error + row" where
  "td_search wanted [] = Inl TopDownIdNotFound"
| "td_search wanted (None # rs) = td_search wanted rs"
| "td_search wanted (Some r # rs) =
     (if raw_id r \<noteq> Some wanted then td_search wanted rs
      else Inr (td_row wanted r))"

definition td :: "raw_row option list option \<Rightarrow> string \<Rightarrow> py_error + row" where
  "td store row_id =
     (if strip row_id = [] then Inl ValueError
      else case store of
             None \<Rightarrow> Inl TopDownError
           | Some rows \<Rightarrow> td_search (strip row_id) rows)"


section \<open>The command-line store (\<open>TopDownCLI.load\<close>) and its validation\<close>

text \<open>
  \<open>load\<close> skips an element that is not an object, has no \<open>id\<close> key or has a falsy
  id, builds a \<open>ConfigRow\<close> from every other element and stores it with
  \<open>self.rows[row.id] = row\<close>.
\<close>

definition cli_row :: "string \<Rightarrow> raw_row \<Rightarrow> row" where
  "cli_row i r =
     \<lparr> rid = i,
       locked = raw_locked r,
       name = str_or_empty (raw_name r),
       args = str_or_empty (raw_args r),
       expr = str_or_empty (raw_expr r),
       scope = raw_scope r,
       depends = norm_field (raw_depends r),
       sources = norm_field (raw_sources r) \<rparr>"

fun load_rows :: "raw_row option list \<Rightarrow> (string, row) dict \<Rightarrow> (string, row) dict" where
  "load_rows [] rows = rows"
| "load_rows (None # rs) rows = load_rows rs rows"
| "load_rows (Some r # rs) rows =
     (case raw_id r of
        None \<Rightarrow> load_rows rs rows
      | Some i \<Rightarrow>
          if i = [] then load_rows rs rows
          else load_rows rs (dict_set rows i (cli_row i r)))"

text \<open>
  \<open>for dep in row.depends: if dep in self.rows: self.graph[row_id].add(dep);
  self.reverse_graph[dep].add(row_id)\<close>
\<close>

fun add_edges :: "(string, row) dict \<Rightarrow> string \<Rightarrow> string list \<Rightarrow> graph \<times> graph \<Rightarrow> graph \<times> graph" where
  "add_edges rows row_id [] gs = gs"
| "add_edges rows row_id (dep # deps) gs =
     add_edges rows row_id deps
       (if dep \<in> set (dict_keys rows)
        then (graph_add (fst gs) row_id dep, graph_add (snd gs) dep row_id)
        else gs)"

fun build_graphs :: "(string, row) dict \<Rightarrow> (string, row) dict \<Rightarrow> graph \<times> graph \<Rightarrow> graph \<times> graph" where
  "build_graphs rows [] gs = gs"
| "build_graphs rows ((row_id, r) # items) gs =
     build_graphs rows items (add_edges rows row_id (depends r) gs)"

record cli =
  cli_rows :: "(string, row) dict"
  cli_graph :: graph
  cli_reverse_graph :: graph

definition load :: "raw_row option list \<Rightarrow> cli" where
  "load raws =
     (let rows = load_rows raws [];
          gs = build_graphs rows rows ([], [])
      in \<lparr> cli_rows = rows, cli_graph = fst gs, cli_reverse_graph = snd gs \<rparr>)"

record issue =
  severity :: string
  code :: string
  message :: string
  issue_row :: "string option"

text \<open>
  The duplicate check of \<open>cmd_validate\<close>, run after \<open>load\<close>:
  \<open>seen_ids = set()\<close>; \<open>for row in self.rows.values(): if row.id in seen_ids:
  errors.append(DUPLICATE_ID); seen_ids.add(row.id)\<close>.
\<close>

fun dup_check :: "row list \<Rightarrow> string list \<Rightarrow> issue list" where
  "dup_check [] seen_ids = []"
| "dup_check (r # rs) seen_ids =
     (if rid r \<in> set seen_ids
      then [\<lparr> severity = ''error'', code = ''DUPLICATE_ID'',
              message = ''Duplicate ID: '' @ rid r, issue_row = Some (rid r) \<rparr>]
      else [])
     @ dup_check rs (set_add seen_ids (rid r))"

definition validate_duplicates :: "raw_row option list \<Rightarrow> issue list" where
  "validate_duplicates raws = dup_check (dict_values (cli_rows (load raws))) []"


record build_system =
  targets :: "(string, row) dict"
  bs_graph :: graph
  bs_reverse_graph :: graph
  profile_deps :: "string list"




section \<open>The impact mapper (\<open>TopDownCI\<close>)\<close>

text \<open>\<open>s.split()\<close>: the maximal runs of characters that are not whitespace.\<close>

fun split_ws :: "string \<Rightarrow> string \<Rightarrow> string list" where
  "split_ws cur [] = (if cur = [] then [] else [rev cur])"
| "split_ws cur (c # cs) =
     (if is_space c
      then (if cur = [] then split_ws [] cs else rev cur # split_ws [] cs)
      else split_ws (c # cur) cs)"

definition py_split :: "string \<Rightarrow> string list" where
  "py_split s = split_ws [] s"

definition startswith :: "string \<Rightarrow> string \<Rightarrow> bool" where
  "startswith s p = (take (length p) s = p)"

definition endswith :: "string \<Rightarrow> string \<Rightarrow> bool" where
  "endswith s p = (length p \<le> length s \<and> drop (length s - length p) s = p)"

text \<open>\<open>s.rsplit(sep, 1)[0]\<close>: the text before the last separator, or all of it.\<close>

definition rsplit_head :: "char \<Rightarrow> string \<Rightarrow> string" where
  "rsplit_head sep s =
     (if sep \<in> set s then rev (tl (dropWhile (\<lambda>c. c \<noteq> sep) (rev s))) else s)"

text \<open>\<open>filepath.replace("\\", "/")\<close>\<close>

definition normalize_path :: "string \<Rightarrow> string" where
  "normalize_path filepath = map (\<lambda>c. if c = CHR 0x5C then CHR ''/'' else c) filepath"

text \<open>
  \<open>_extract_file_patterns\<close>: the tokens of \<open>args\<close> that contain \<open>*\<close> or \<open>/\<close> or end
  in a known source suffix; the row gets an entry only when there is such a token.
\<close>

definition file_like :: "string \<Rightarrow> bool" where
  "file_like part =
     ((CHR ''*'' \<in> set part \<or> CHR ''/'' \<in> set part)
      \<or> (endswith part ''.c'' \<or> endswith part ''.h'' \<or> endswith part ''.py''
         \<or> endswith part ''.ts'' \<or> endswith part ''.js'' \<or> endswith part ''.go''
         \<or> endswith part ''.rs''))"

definition extract_file_patterns ::
  "(string, string list) dict \<Rightarrow> string \<Rightarrow> string \<Rightarrow> (string, string list) dict" where
  "extract_file_patterns file_patterns row_id args_text =
     (let patterns = filter file_like (py_split args_text)
      in if patterns \<noteq> [] then dict_set file_patterns row_id patterns else file_patterns)"

text \<open>
  The glob matcher \<open>fnmatch.fnmatch(name, pattern)\<close> is the Python library's; the mapper
  takes it as the parameter \<open>fnm\<close>. The inner loop over the patterns of one row stops at
  the first pattern that matches either way.
\<close>

definition dir_suffix :: "string \<Rightarrow> bool" where
  "dir_suffix pattern =
     (endswith pattern ''/*'' \<or> endswith pattern ''/*.c'' \<or> endswith pattern ''/*.py'')"

fun row_matches :: "(string \<Rightarrow> string \<Rightarrow> bool) \<Rightarrow> string \<Rightarrow> string list \<Rightarrow> bool" where
  "row_matches fnm filepath_normalized [] = False"
| "row_matches fnm filepath_normalized (pattern # patterns) =
     (if fnm filepath_normalized pattern then True
      else if dir_suffix pattern
              \<and> startswith filepath_normalized (rsplit_head CHR ''/'' pattern @ ''/'')
           then True
      else row_matches fnm filepath_normalized patterns)"

text \<open>\<open>file_to_rows[filepath].append(row_id)\<close> on a \<open>defaultdict(list)\<close>\<close>

definition append_row :: "(string, string list) dict \<Rightarrow> string \<Rightarrow> string \<Rightarrow> (string, string list) dict" where
  "append_row file_to_rows filepath row_id =
     dict_set file_to_rows filepath
       ((case dict_get file_to_rows filepath of None \<Rightarrow> [] | Some ids \<Rightarrow> ids) @ [row_id])"

fun map_file ::
  "(string \<Rightarrow> string \<Rightarrow> bool) \<Rightarrow> string \<Rightarrow> (string, string list) dict
   \<Rightarrow> (string, string list) dict \<Rightarrow> (string, string list) dict" where
  "map_file fnm filepath [] file_to_rows = file_to_rows"
| "map_file fnm filepath ((row_id, patterns) # items) file_to_rows =
     map_file fnm filepath items
       (if row_matches fnm (normalize_path filepath) patterns
        then append_row file_to_rows filepath row_id
        else file_to_rows)"

fun map_files ::
  "(string \<Rightarrow> string \<Rightarrow> bool) \<Rightarrow> (string, string list) dict \<Rightarrow> string list
   \<Rightarrow> (string, string list) dict \<Rightarrow> (string, string list) dict" where
  "map_files fnm file_patterns [] file_to_rows = file_to_rows"
| "map_files fnm file_patterns (filepath # changed_files) file_to_rows =
     map_files fnm file_patterns changed_files (map_file fnm filepath file_patterns file_to_rows)"

definition map_files_to_rows ::
  "(string \<Rightarrow> string \<Rightarrow> bool) \<Rightarrow> (string, string list) dict \<Rightarrow> string list
   \<Rightarrow> (string, string list) dict" where
  "map_files_to_rows fnm file_patterns changed_files = map_files fnm file_patterns changed_files []"

definition rows_of :: "(string, string list) dict \<Rightarrow> string \<Rightarrow> string list" where
  "rows_of file_to_rows filepath =
     (case dict_get file_to_rows filepath of None \<Rightarrow> [] | Some ids \<Rightarrow> ids)"

text \<open>
  \<open>fnmatch.fnmatch\<close> on a POSIX system, for the patterns that have no bracket: \<open>*\<close>
  matches any run of characters (the separator \<open>/\<close> included), \<open>?\<close> matches one
  character, and every other character matches itself. It instantiates \<open>fnm\<close> on
  concrete inputs.
\<close>

fun fnmatch_wild_pat :: "string \<Rightarrow> string \<Rightarrow> bool" where
  "fnmatch_wild_pat [] nm = (nm = [])"
| "fnmatch_wild_pat (p # ps) [] = (p = CHR ''*'' \<and> fnmatch_wild_pat ps [])"
| "fnmatch_wild_pat (p # ps) (c # cs) =
     (if p = CHR ''*'' then fnmatch_wild_pat ps (c # cs) \<or> fnmatch_wild_pat (p # ps) cs
      else if p = CHR ''?'' then fnmatch_wild_pat ps cs
      else p = c \<and> fnmatch_wild_pat ps cs)"

definition fnmatch_wild :: "string \<Rightarrow> string \<Rightarrow> bool" where
  "fnmatch_wild nm pattern = fnmatch_wild_pat pattern nm"

text \<open>
  The matching rule in the words of the specification: the pattern matches the path under
  glob semantics, or the pattern is a directory followed by \<open>/\<close> and a last segment with a
  wildcard in it, and the path lies under that directory.
\<close>

definition wildcard_suffix :: "string \<Rightarrow> bool" where
  "wildcard_suffix pattern =
     (CHR ''/'' \<in> set pattern
      \<and> (\<exists>c \<in> set (takeWhile (\<lambda>c. c \<noteq> CHR ''/'') (rev pattern)).
            c = CHR ''*'' \<or> c = CHR ''?'' \<or> c = CHR ''[''))"

definition spec_matches :: "(string \<Rightarrow> string \<Rightarrow> bool) \<Rightarrow> string \<Rightarrow> string \<Rightarrow> bool" where
  "spec_matches fnm filepath_normalized pattern =
     (fnm filepath_normalized pattern
      \<or> (wildcard_suffix pattern
         \<and> startswith filepath_normalized (rsplit_head CHR ''/'' pattern @ ''/'')))"


section \<open>Cycle detection\<close>

text \<open>
  \<open>detect_cycles\<close> (the same text in \<open>TopDownCLI._detect_cycles\<close>,
  \<open>BuildSystem.detect_cycles\<close>, \<open>Orchestrator.detect_cycles\<close>): a depth-first
  search with the sets \<open>visited\<close> and \<open>rec_stack\<close>, the list \<open>path\<close> and the list
  of cycles found. \<open>dfs_loop g deps st\<close> is the loop \<open>for dep in self.graph.get(node,
  set())\<close> of the call for the node at the end of \<open>path\<close>, from the entries \<open>deps\<close>
  still to come. \<open>path[path.index(dep):]\<close> is the part of \<open>path\<close> from the first
  \<open>dep\<close> on; \<open>index\<close> and \<open>rec_stack.remove\<close> raise when the element is absent,
  which \<open>dfs_loop_frame\<close> below excludes: the elements of \<open>rec_stack\<close> are those of
  \<open>path\<close>.
\<close>

record dfs_state =
  visited :: "string list"
  rec_stack :: "string list"
  path :: "string list"
  cycles :: "string list list"

definition dfs_enter :: "string \<Rightarrow> dfs_state \<Rightarrow> dfs_state" where
  "dfs_enter node st =
     st\<lparr> visited := set_add (visited st) node,
         rec_stack := set_add (rec_stack st) node,
         path := path st @ [node] \<rparr>"

definition dfs_exit :: "string \<Rightarrow> dfs_state \<Rightarrow> dfs_state" where
  "dfs_exit node st =
     st\<lparr> path := butlast (path st), rec_stack := removeAll node (rec_stack st) \<rparr>"

definition emit_cycle :: "string \<Rightarrow> dfs_state \<Rightarrow> dfs_state" where
  "emit_cycle dep st =
     st\<lparr> cycles := cycles st @ [dropWhile (\<lambda>x. x \<noteq> dep) (path st) @ [dep]] \<rparr>"

function dfs_loop :: "graph \<Rightarrow> string list \<Rightarrow> dfs_state \<Rightarrow> dfs_state" where
  "dfs_loop g [] st = st"
| "dfs_loop g (dep # deps) st =
     (if dep \<notin> set (visited st)
      then dfs_loop g deps (dfs_exit dep (dfs_loop g (adj g dep) (dfs_enter dep st)))
      else if dep \<in> set (rec_stack st)
      then dfs_loop g deps (emit_cycle dep st)
      else dfs_loop g deps st)"
  by pat_completeness auto

text \<open>
  The search ends: each call marks a node with outgoing edges that was unmarked, or runs
  over an empty adjacency.
\<close>

definition has_adj :: "graph \<Rightarrow> string set" where
  "has_adj g = {k. adj g k \<noteq> []}"

lemma finite_has_adj: "finite (has_adj g)"
proof -
  have "has_adj g \<subseteq> set (dict_keys g)"
    by (auto simp: has_adj_def adj_def dict_get_def dict_keys_def split: option.splits
             dest!: map_of_SomeD intro: rev_image_eqI)
  then show ?thesis by (rule finite_subset) simp
qed

lemma dfs_loop_visited_dom:
  "dfs_loop_dom (g, deps, st) \<Longrightarrow> set (visited st) \<subseteq> set (visited (dfs_loop g deps st))"
proof (induction g deps st rule: dfs_loop.pinduct)
  case (1 g st)
  then show ?case by (simp add: dfs_loop.psimps)
next
  case (2 g dep deps st)
  show ?case
  proof (cases "dep \<in> set (visited st)")
    case False
    have a: "set (visited st) \<subseteq> set (visited (dfs_enter dep st))"
      by (auto simp: dfs_enter_def set_add_def)
    have b: "set (visited (dfs_enter dep st)) \<subseteq> set (visited (dfs_loop g (adj g dep) (dfs_enter dep st)))"
      using 2(2) False by simp
    have c: "visited (dfs_exit dep (dfs_loop g (adj g dep) (dfs_enter dep st)))
               = visited (dfs_loop g (adj g dep) (dfs_enter dep st))"
      by (simp add: dfs_exit_def)
    have d: "set (visited (dfs_exit dep (dfs_loop g (adj g dep) (dfs_enter dep st))))
               \<subseteq> set (visited (dfs_loop g deps (dfs_exit dep (dfs_loop g (adj g dep) (dfs_enter dep st)))))"
      using 2(3) False by simp
    from a b c d show ?thesis
      using False 2(1) by (simp add: dfs_loop.psimps)
  next
    case True
    show ?thesis
    proof (cases "dep \<in> set (rec_stack st)")
      case True
      have "set (visited (emit_cycle dep st)) \<subseteq> set (visited (dfs_loop g deps (emit_cycle dep st)))"
        using 2(4) True \<open>dep \<in> set (visited st)\<close> by simp
      then show ?thesis
        using True \<open>dep \<in> set (visited st)\<close> 2(1) by (simp add: dfs_loop.psimps emit_cycle_def)
    next
      case False
      then show ?thesis
        using 2(5) \<open>dep \<in> set (visited st)\<close> 2(1) by (simp add: dfs_loop.psimps)
    qed
  qed
qed

termination dfs_loop
proof (relation "inv_image (finite_psubset <*lex*> less_than)
                   (\<lambda>(g, deps, st). (has_adj g - set (visited st), length deps))", goal_cases)
  case 1
  show ?case by (intro wf_inv_image wf_lex_prod wf_finite_psubset wf_less_than)
next
  case (2 g dep deps st)
  show ?case
  proof (cases "dep \<in> has_adj g")
    case True
    with 2 have "has_adj g - set (visited (dfs_enter dep st)) \<subset> has_adj g - set (visited st)"
      by (auto simp: dfs_enter_def set_add_def)
    then show ?thesis by (simp add: finite_psubset_def finite_has_adj)
  next
    case False
    then have "adj g dep = []" by (simp add: has_adj_def)
    moreover from False have "has_adj g - set (visited (dfs_enter dep st)) = has_adj g - set (visited st)"
      by (auto simp: dfs_enter_def set_add_def)
    ultimately show ?thesis by simp
  qed
next
  case (3 g dep deps st)
  have "set (visited st) \<subseteq> set (visited (dfs_enter dep st))"
    by (auto simp: dfs_enter_def set_add_def)
  also have "\<dots> \<subseteq> set (visited (dfs_loop g (adj g dep) (dfs_enter dep st)))"
    using 3(2) by (rule dfs_loop_visited_dom)
  finally have "has_adj g - set (visited (dfs_exit dep (dfs_loop g (adj g dep) (dfs_enter dep st))))
                  \<subseteq> has_adj g - set (visited st)"
    by (auto simp: dfs_exit_def)
  then show ?case
    by (auto simp: finite_psubset_def finite_has_adj)
next
  case (4 g dep deps st)
  then show ?case by (simp add: emit_cycle_def)
next
  case (5 g dep deps st)
  then show ?case by simp
qed




text \<open>
  The edges of a graph, walks along them, and the closed walks: lists of at least two
  nodes whose consecutive pairs are edges and whose first and last elements are equal.
\<close>

definition edges :: "graph \<Rightarrow> (string \<times> string) set" where
  "edges g = {(a, b). b \<in> set (adj g a)}"




text \<open>
  The finished nodes are the visited ones that have left the stack. As long as no cycle was
  recorded, every edge from a finished node leads to a finished node and no finished node
  lies on a cycle.
\<close>

definition fin :: "dfs_state \<Rightarrow> string set" where
  "fin st = set (visited st) - set (rec_stack st)"



section \<open>Transitive dependencies and the leveled build order\<close>

text \<open>
  \<open>get_transitive_deps\<close>: \<open>deps = set()\<close>, \<open>queue = list(self.graph.get(target_id,
  set()))\<close>; while the queue is not empty, \<open>dep = queue.pop(0)\<close> and, when \<open>dep\<close>
  is new, it is added to \<open>deps\<close> and its adjacency is appended to the queue.
\<close>

function transitive_loop :: "graph \<Rightarrow> string list \<Rightarrow> string list \<Rightarrow> string list" where
  "transitive_loop g [] deps = deps"
| "transitive_loop g (dep # queue) deps =
     (if dep \<notin> set deps
      then transitive_loop g (queue @ adj g dep) (set_add deps dep)
      else transitive_loop g queue deps)"
  by pat_completeness auto
termination
proof (relation "inv_image (finite_psubset <*lex*> less_than)
                   (\<lambda>(g, queue, deps). (has_adj g - set deps, length queue))", goal_cases)
  case 1
  show ?case by (intro wf_inv_image wf_lex_prod wf_finite_psubset wf_less_than)
next
  case (2 g dep queue deps)
  show ?case
  proof (cases "dep \<in> has_adj g")
    case True
    with 2 have "has_adj g - set (set_add deps dep) \<subset> has_adj g - set deps"
      by (auto simp: set_add_def)
    then show ?thesis by (simp add: finite_psubset_def finite_has_adj)
  next
    case False
    then have "adj g dep = []" by (simp add: has_adj_def)
    moreover from False have "has_adj g - set (set_add deps dep) = has_adj g - set deps"
      by (auto simp: set_add_def)
    ultimately show ?thesis by simp
  qed
next
  case (3 g dep queue deps)
  then show ?case by simp
qed

definition get_transitive_deps :: "graph \<Rightarrow> string \<Rightarrow> string list" where
  "get_transitive_deps g target_id = transitive_loop g (adj g target_id) []"

text \<open>
  \<open>get_build_order\<close>: the targets and their transitive dependencies, kept when they are
  known targets whose scope is in \<open>SCOPES\<close>; the in-degree of each within that set;
  then Kahn's algorithm by levels. \<open>in_degree\<close> is a dictionary with exactly the
  buildable targets as keys, read and written at those keys only; it is a function here.
\<close>

definition SCOPES :: "string option list" where
  "SCOPES = [Some ''library'', Some ''binary'', Some ''test'', Some ''package'',
             Some ''deploy'', Some ''profile'', None]"

fun set_update :: "string list \<Rightarrow> string list \<Rightarrow> string list" where
  "set_update acc [] = acc"
| "set_update acc (x # xs) = set_update (set_add acc x) xs"

fun collect_targets :: "graph \<Rightarrow> string list \<Rightarrow> string list \<Rightarrow> string list" where
  "collect_targets g [] all_targets = all_targets"
| "collect_targets g (t # ts) all_targets =
     collect_targets g ts (set_update all_targets (get_transitive_deps g t))"

definition buildable :: "build_system \<Rightarrow> string list \<Rightarrow> string list" where
  "buildable bs tgs =
     filter (\<lambda>t. case dict_get (targets bs) t of
                   None \<Rightarrow> False
                 | Some r \<Rightarrow> scope r \<in> set SCOPES)
       (collect_targets (bs_graph bs) tgs (remdups tgs))"

fun count_deps :: "string list \<Rightarrow> string list \<Rightarrow> int \<Rightarrow> int" where
  "count_deps nodes [] n = n"
| "count_deps nodes (dep # deps) n =
     count_deps nodes deps (if dep \<in> set nodes then n + 1 else n)"

fun init_in_degree :: "graph \<Rightarrow> string list \<Rightarrow> string list \<Rightarrow> (string \<Rightarrow> int) \<Rightarrow> (string \<Rightarrow> int)" where
  "init_in_degree g nodes [] in_degree = in_degree"
| "init_in_degree g nodes (t # ts) in_degree =
     init_in_degree g nodes ts (in_degree(t := count_deps nodes (adj g t) (in_degree t)))"

text \<open>
  One round of the loop \<open>while remaining\<close>: \<open>level\<close> is the list of the remaining
  nodes with in-degree \<open>0\<close>; with no such node the loop breaks; else the sorted level is
  appended and, for each \<open>t\<close> of the level in turn, \<open>t\<close> is removed from
  \<open>remaining\<close> and \<open>in_degree[dependent] -= 1\<close> for each dependent of \<open>t\<close> that
  is still in \<open>remaining\<close>.
\<close>

fun dec_dependents :: "string list \<Rightarrow> string list \<Rightarrow> (string \<Rightarrow> int) \<Rightarrow> (string \<Rightarrow> int)" where
  "dec_dependents [] remaining in_degree = in_degree"
| "dec_dependents (dependent # ds) remaining in_degree =
     dec_dependents ds remaining
       (if dependent \<in> set remaining
        then in_degree(dependent := in_degree dependent - 1)
        else in_degree)"

fun process_level ::
  "graph \<Rightarrow> string list \<Rightarrow> string list \<times> (string \<Rightarrow> int) \<Rightarrow> string list \<times> (string \<Rightarrow> int)" where
  "process_level rg [] ri = ri"
| "process_level rg (t # ts) ri =
     process_level rg ts
       (remove1 t (fst ri), dec_dependents (adj rg t) (remove1 t (fst ri)) (snd ri))"

lemma process_level_length: "length (fst (process_level rg ts ri)) \<le> length (fst ri)"
proof (induction ts arbitrary: ri)
  case Nil
  then show ?case by simp
next
  case (Cons t ts)
  have "length (fst (process_level rg (t # ts) ri)) \<le> length (remove1 t (fst ri))"
    using Cons.IH [of "(remove1 t (fst ri), dec_dependents (adj rg t) (remove1 t (fst ri)) (snd ri))"]
    by simp
  also have "\<dots> \<le> length (fst ri)"
    by (simp add: length_remove1)
  finally show ?case .
qed

lemma process_level_shrinks:
  assumes "t \<in> set remaining"
  shows "length (fst (process_level rg (t # ts) (remaining, in_degree))) < length remaining"
proof -
  have "length (fst (process_level rg (t # ts) (remaining, in_degree))) \<le> length (remove1 t remaining)"
    using process_level_length [of rg ts "(remove1 t remaining, dec_dependents (adj rg t) (remove1 t remaining) in_degree)"]
    by simp
  also have "\<dots> < length remaining"
    using assms length_pos_if_in_set [OF assms] by (simp add: length_remove1)
  finally show ?thesis .
qed

function kahn_loop ::
  "graph \<Rightarrow> string list \<Rightarrow> (string \<Rightarrow> int) \<Rightarrow> string list list \<Rightarrow> string list list" where
  "kahn_loop rg remaining in_degree levels =
     (if remaining = [] then levels
      else if filter (\<lambda>t. in_degree t = 0) remaining = [] then levels
      else kahn_loop rg
             (fst (process_level rg (filter (\<lambda>t. in_degree t = 0) remaining) (remaining, in_degree)))
             (snd (process_level rg (filter (\<lambda>t. in_degree t = 0) remaining) (remaining, in_degree)))
             (levels @ [sort (filter (\<lambda>t. in_degree t = 0) remaining)]))"
  by pat_completeness auto
termination
proof (relation "measure (\<lambda>(rg, remaining, in_degree, levels). length remaining)", goal_cases)
  case 1
  show ?case by simp
next
  case (2 rg remaining in_degree levels)
  then obtain t ts where l: "filter (\<lambda>t. in_degree t = 0) remaining = t # ts"
    by (cases "filter (\<lambda>t. in_degree t = 0) remaining") auto
  then have "t \<in> set (filter (\<lambda>t. in_degree t = 0) remaining)" by simp
  then have "t \<in> set remaining" by simp
  from process_level_shrinks [OF this] show ?case
    unfolding l by simp
qed

declare kahn_loop.simps [simp del]

definition get_build_order :: "build_system \<Rightarrow> string list \<Rightarrow> string list list" where
  "get_build_order bs tgs =
     (let nodes = buildable bs tgs;
          in_degree = init_in_degree (bs_graph bs) nodes nodes (\<lambda>t. 0)
      in kahn_loop (bs_reverse_graph bs) nodes in_degree [])"

text \<open>
  Between the rounds the in-degree of a remaining node is the number of entries of its
  adjacency that are still remaining. The reverse graph is built together with the forward
  graph, one entry in each for every edge added.
\<close>

definition kahn_inv :: "graph \<Rightarrow> string list \<Rightarrow> (string \<Rightarrow> int) \<Rightarrow> bool" where
  "kahn_inv g remaining in_degree =
     (\<forall>d \<in> set remaining. in_degree d = int (length (filter (\<lambda>x. x \<in> set remaining) (adj g d))))"

definition reverse_of :: "graph \<Rightarrow> graph \<Rightarrow> bool" where
  "reverse_of g rg = (\<forall>a b. count_list (adj rg a) b = count_list (adj g b) a)"

section \<open>Helper facts\<close>

lemma dict_get_set: "dict_get (dict_set d k v) k' = (if k' = k then Some v else dict_get d k')"
  by (induction d) (auto simp: dict_get_def)

lemma dict_keys_set: "set (dict_keys (dict_set d k v)) = insert k (set (dict_keys d))"
  by (induction d) (force simp: dict_keys_def)+

lemma dict_set_distinct: "distinct (dict_keys d) \<Longrightarrow> distinct (dict_keys (dict_set d k v))"
proof (induction d)
  case Nil
  then show ?case by (simp add: dict_keys_def)
next
  case (Cons p d)
  obtain k' v' where p: "p = (k', v')" by (cases p)
  have "set (dict_keys (dict_set d k v)) = insert k (set (dict_keys d))"
    by (rule dict_keys_set)
  with Cons p show ?case
    by (auto simp: dict_keys_def)
qed

lemma td_search_skip:
  "\<forall>x \<in> set pre. (case x of None \<Rightarrow> True | Some r' \<Rightarrow> raw_id r' \<noteq> Some w)
   \<Longrightarrow> td_search w (pre @ rest) = td_search w rest"
proof (induction pre)
  case Nil
  then show ?case by simp
next
  case (Cons x pre)
  then show ?case by (cases x) auto
qed



lemma set_add_set: "set (set_add xs x) = insert x (set xs)"
  by (auto simp: set_add_def)

lemma load_rows_distinct:
  "distinct (dict_keys rows) \<Longrightarrow> distinct (dict_keys (load_rows raws rows))"
  by (induction raws rows rule: load_rows.induct) (auto simp: dict_set_distinct split: option.splits)


lemma dict_set_rid:
  "\<forall>(k, r) \<in> set d. rid r = k \<Longrightarrow> rid v = k' \<Longrightarrow> \<forall>(k, r) \<in> set (dict_set d k' v). rid r = k"
  by (induction d) (auto split: if_splits)

lemma load_rows_rid:
  "\<forall>(k, r) \<in> set rows. rid r = k \<Longrightarrow> \<forall>(k, r) \<in> set (load_rows raws rows). rid r = k"
proof (induction raws arbitrary: rows)
  case Nil
  then show ?case by simp
next
  case (Cons x raws)
  show ?case
  proof (cases x)
    case None
    then show ?thesis using Cons.IH [OF Cons.prems] by simp
  next
    case (Some r)
    show ?thesis
    proof (cases "raw_id r")
      case None
      then show ?thesis using Some Cons.IH [OF Cons.prems] by simp
    next
      case (Some i)
      note i = this
      show ?thesis
      proof (cases "i = []")
        case True
        then show ?thesis using \<open>x = Some r\<close> i Cons.IH [OF Cons.prems] by simp
      next
        case False
        have "\<forall>(k, r) \<in> set (dict_set rows i (cli_row i r)). rid r = k"
          using Cons.prems by (rule dict_set_rid) (simp add: cli_row_def)
        from Cons.IH [OF this] show ?thesis
          using \<open>x = Some r\<close> i False by simp
      qed
    qed
  qed
qed

lemma dup_check_distinct:
  "distinct (map rid rs) \<Longrightarrow> set (map rid rs) \<inter> set seen = {} \<Longrightarrow> dup_check rs seen = []"
  by (induction rs arbitrary: seen) (auto simp: set_add_set)


text \<open>
  The rows the duplicate check walks are the values of a dictionary keyed by their own
  ids, so no id is met twice: the check reports nothing, whatever the input.
\<close>

lemma validate_duplicates_silent: "validate_duplicates raws = []"
proof -
  let ?rows = "load_rows raws []"
  have d: "distinct (dict_keys ?rows)" by (rule load_rows_distinct) (simp add: dict_keys_def)
  have r: "\<forall>(k, r) \<in> set ?rows. rid r = k" by (rule load_rows_rid) simp
  then have "map rid (dict_values ?rows) = dict_keys ?rows"
    by (auto simp: dict_values_def dict_keys_def)
  with d have "dup_check (dict_values ?rows) [] = []"
    by (intro dup_check_distinct) simp_all
  then show ?thesis by (simp add: validate_duplicates_def load_def Let_def)
qed









lemma row_matches_iff:
  "row_matches fnm f ps \<longleftrightarrow>
     (\<exists>p \<in> set ps. fnm f p \<or> (dir_suffix p \<and> startswith f (rsplit_head CHR ''/'' p @ ''/'')))"
  by (induction ps) auto

lemma rows_of_append:
  "set (rows_of (append_row m f r) f') = (if f' = f then insert r (set (rows_of m f)) else set (rows_of m f'))"
  by (auto simp: rows_of_def append_row_def dict_get_set split: option.splits)

lemma map_file_rows:
  "set (rows_of (map_file fnm f items m) f')
     = set (rows_of m f') \<union> (if f' = f then {r. \<exists>ps. (r, ps) \<in> set items \<and> row_matches fnm (normalize_path f) ps} else {})"
proof (induction items arbitrary: m)
  case Nil
  then show ?case by simp
next
  case (Cons it items)
  obtain r ps where it: "it = (r, ps)" by (cases it)
  show ?case
    unfolding it map_file.simps Cons.IH by (auto simp: rows_of_append)
qed

lemma map_files_rows:
  "set (rows_of (map_files fnm fp files m) f')
     = set (rows_of m f') \<union> (if f' \<in> set files then {r. \<exists>ps. (r, ps) \<in> set fp \<and> row_matches fnm (normalize_path f') ps} else {})"
proof (induction files arbitrary: m)
  case Nil
  then show ?case by simp
next
  case (Cons f files)
  show ?case
    unfolding map_files.simps Cons.IH map_file_rows by auto
qed
















lemma dfs_loop_visited_mono: "set (visited st) \<subseteq> set (visited (dfs_loop g deps st))"
proof (induction g deps st rule: dfs_loop.induct)
  case (1 g st)
  then show ?case by simp
next
  case (2 g dep deps st)
  show ?case
  proof (cases "dep \<in> set (visited st)")
    case False
    have "set (visited st) \<subseteq> set (visited (dfs_enter dep st))"
      by (auto simp: dfs_enter_def set_add_def)
    also have "\<dots> \<subseteq> set (visited (dfs_loop g (adj g dep) (dfs_enter dep st)))"
      using "2.IH"(1) [OF False] .
    also have "\<dots> = set (visited (dfs_exit dep (dfs_loop g (adj g dep) (dfs_enter dep st))))"
      by (simp add: dfs_exit_def)
    also have "\<dots> \<subseteq> set (visited (dfs_loop g deps (dfs_exit dep (dfs_loop g (adj g dep) (dfs_enter dep st)))))"
      using "2.IH"(2) [OF False] .
    finally show ?thesis using False by simp
  next
    case True
    show ?thesis
    proof (cases "dep \<in> set (rec_stack st)")
      case True
      have "set (visited (emit_cycle dep st)) \<subseteq> set (visited (dfs_loop g deps (emit_cycle dep st)))"
        using "2.IH"(3) \<open>dep \<in> set (visited st)\<close> True by simp
      then show ?thesis using \<open>dep \<in> set (visited st)\<close> True by (simp add: emit_cycle_def)
    next
      case False
      then show ?thesis using "2.IH"(4) \<open>dep \<in> set (visited st)\<close> by simp
    qed
  qed
qed








lemma dec_dependents_val:
  "dec_dependents ds remaining in_degree x
     = (if x \<in> set remaining then in_degree x - int (count_list ds x) else in_degree x)"
  by (induction ds arbitrary: in_degree) auto

lemma remove1_as_filter: "distinct xs \<Longrightarrow> remove1 t xs = filter (\<lambda>x. x \<noteq> t) xs"
proof -
  assume "distinct xs"
  then have "remove1 t xs = removeAll t xs" by (rule distinct_remove1_removeAll)
  also have "\<dots> = filter (\<lambda>x. t \<noteq> x) xs" by (simp add: removeAll_filter_not_eq)
  also have "(\<lambda>x. t \<noteq> x) = (\<lambda>x. x \<noteq> t)" by auto
  finally show ?thesis .
qed

lemma process_level_fst:
  "distinct remaining \<Longrightarrow>
   fst (process_level rg ts (remaining, in_degree)) = filter (\<lambda>x. x \<notin> set ts) remaining"
proof (induction ts arbitrary: remaining in_degree)
  case Nil
  then show ?case by simp
next
  case (Cons t ts)
  have d: "distinct (remove1 t remaining)" using Cons.prems by simp
  show ?case
    using Cons.IH [OF d] by (simp add: remove1_as_filter [OF Cons.prems] conj_commute)
qed

lemma process_level_snd:
  "distinct remaining \<Longrightarrow> x \<in> set remaining \<Longrightarrow> x \<notin> set ts \<Longrightarrow>
   snd (process_level rg ts (remaining, in_degree)) x
     = in_degree x - int (sum_list (map (\<lambda>t. count_list (adj rg t) x) ts))"
proof (induction ts arbitrary: remaining in_degree)
  case Nil
  then show ?case by simp
next
  case (Cons t ts)
  have d: "distinct (remove1 t remaining)" using Cons.prems by simp
  have x: "x \<in> set (remove1 t remaining)" using Cons.prems by simp
  have nt: "x \<notin> set ts" using Cons.prems by simp
  show ?case
    using Cons.IH [OF d x nt] x by (simp add: dec_dependents_val)
qed

lemma length_filter_split:
  assumes "\<And>x. R x \<longleftrightarrow> P x \<or> Q x" and "\<And>x. \<not> (P x \<and> Q x)"
  shows "length (filter R xs) = length (filter P xs) + length (filter Q xs)"
  using assms by (induction xs) auto

lemma sum_count_list:
  "distinct L \<Longrightarrow>
   sum_list (map (\<lambda>t. count_list xs t) L) = length (filter (\<lambda>x. x \<in> set L) xs)"
proof (induction L)
  case Nil
  then show ?case by simp
next
  case (Cons t L)
  have "length (filter (\<lambda>x. x \<in> set (t # L)) xs)
          = length (filter (\<lambda>x. x = t) xs) + length (filter (\<lambda>x. x \<in> set L) xs)"
    using Cons.prems by (intro length_filter_split) auto
  moreover have "count_list xs t = length (filter (\<lambda>x. x = t) xs)"
    by (induction xs) auto
  ultimately show ?case using Cons by simp
qed

lemma kahn_inv_step:
  assumes inv: "kahn_inv g remaining in_degree" and d: "distinct remaining"
    and rev: "reverse_of g rg"
    and L: "level = filter (\<lambda>t. in_degree t = 0) remaining"
  shows "kahn_inv g (fst (process_level rg level (remaining, in_degree)))
                    (snd (process_level rg level (remaining, in_degree)))"
proof -
  let ?rem' = "filter (\<lambda>x. x \<notin> set level) remaining"
  have f: "fst (process_level rg level (remaining, in_degree)) = ?rem'"
    using d by (rule process_level_fst)
  have dl: "distinct level" using d L by simp
  {
    fix x assume x: "x \<in> set ?rem'"
    then have xr: "x \<in> set remaining" and xl: "x \<notin> set level" by simp_all
    have "snd (process_level rg level (remaining, in_degree)) x
            = in_degree x - int (sum_list (map (\<lambda>t. count_list (adj rg t) x) level))"
      using d xr xl by (rule process_level_snd)
    also have "(\<lambda>t. count_list (adj rg t) x) = (\<lambda>t. count_list (adj g x) t)"
      using rev by (simp add: reverse_of_def)
    also have "sum_list (map (\<lambda>t. count_list (adj g x) t) level)
                 = length (filter (\<lambda>y. y \<in> set level) (adj g x))"
      using dl by (rule sum_count_list)
    also have "in_degree x = int (length (filter (\<lambda>y. y \<in> set remaining) (adj g x)))"
      using inv xr by (simp add: kahn_inv_def)
    also have "length (filter (\<lambda>y. y \<in> set remaining) (adj g x))
                 = length (filter (\<lambda>y. y \<in> set level) (adj g x))
                   + length (filter (\<lambda>y. y \<in> set ?rem') (adj g x))"
      using L by (intro length_filter_split) auto
    finally have "snd (process_level rg level (remaining, in_degree)) x
                    = int (length (filter (\<lambda>y. y \<in> set ?rem') (adj g x)))"
      by simp
  }
  then show ?thesis
    unfolding f kahn_inv_def by blast
qed

lemma kahn_progress:
  assumes inv: "kahn_inv g remaining in_degree" and ne: "remaining \<noteq> []"
    and acyc: "acyclic (edges g)"
  shows "filter (\<lambda>t. in_degree t = 0) remaining \<noteq> []"
proof -
  let ?r = "{(a, b). a \<in> set remaining \<and> b \<in> set remaining \<and> (a, b) \<in> edges g}"
  have "?r \<subseteq> set remaining \<times> set remaining" by auto
  then have fin: "finite ?r" by (rule finite_subset) simp
  have "acyclic ?r" by (rule acyclic_subset [OF acyc]) auto
  with fin have "wf (?r\<inverse>)" by (rule finite_acyclic_wf_converse)
  moreover from ne have "hd remaining \<in> set remaining" by simp
  ultimately obtain z where z: "z \<in> set remaining" and m: "\<And>y. (y, z) \<in> ?r\<inverse> \<Longrightarrow> y \<notin> set remaining"
    by (rule wfE_min) blast
  have "filter (\<lambda>x. x \<in> set remaining) (adj g z) = []"
    using m z by (auto simp: filter_empty_conv edges_def)
  with inv z have "in_degree z = 0" by (simp add: kahn_inv_def)
  with z show ?thesis by (auto simp: filter_empty_conv)
qed

lemma kahn_loop_levels:
  "kahn_inv g remaining in_degree \<Longrightarrow> distinct remaining \<Longrightarrow> reverse_of g rg
   \<Longrightarrow> acyclic (edges g)
   \<Longrightarrow> \<exists>new. kahn_loop rg remaining in_degree levels = levels @ new
        \<and> distinct (concat new) \<and> set (concat new) = set remaining
        \<and> (\<forall>i < length new. \<forall>n \<in> set (new ! i). \<forall>d \<in> set (adj g n).
              d \<in> set remaining \<longrightarrow> (\<exists>j < i. d \<in> set (new ! j)))"
proof (induction rg remaining in_degree levels rule: kahn_loop.induct)
  case (1 rg remaining in_degree levels)
  show ?case
  proof (cases "remaining = []")
    case True
    then show ?thesis by (simp add: kahn_loop.simps)
  next
    case False
    let ?level = "filter (\<lambda>t. in_degree t = 0) remaining"
    let ?pl = "process_level rg ?level (remaining, in_degree)"
    have lne: "?level \<noteq> []"
      using "1.prems"(1) False "1.prems"(4) by (rule kahn_progress)
    have inv': "kahn_inv g (fst ?pl) (snd ?pl)"
      using "1.prems"(1,2,3) by (rule kahn_inv_step) simp
    have f: "fst ?pl = filter (\<lambda>x. x \<notin> set ?level) remaining"
      using "1.prems"(2) by (rule process_level_fst)
    have d': "distinct (fst ?pl)" using "1.prems"(2) f by simp
    from "1.IH" [OF False lne inv' d' "1.prems"(3,4)]
    obtain new where n1: "kahn_loop rg (fst ?pl) (snd ?pl) (levels @ [sort ?level]) = (levels @ [sort ?level]) @ new"
      and n2: "distinct (concat new)" and n3: "set (concat new) = set (fst ?pl)"
      and n4: "\<forall>i < length new. \<forall>n \<in> set (new ! i). \<forall>d \<in> set (adj g n).
              d \<in> set (fst ?pl) \<longrightarrow> (\<exists>j < i. d \<in> set (new ! j))"
      by blast
    let ?new = "sort ?level # new"
    have r: "kahn_loop rg remaining in_degree levels = levels @ ?new"
      using False lne n1 by (subst kahn_loop.simps) simp
    have s3: "set (concat ?new) = set remaining"
      using n3 f by auto
    have s2: "distinct (concat ?new)"
      using n2 n3 f "1.prems"(2) by auto
    have s4: "\<forall>i < length ?new. \<forall>n \<in> set (?new ! i). \<forall>d \<in> set (adj g n).
              d \<in> set remaining \<longrightarrow> (\<exists>j < i. d \<in> set (?new ! j))"
    proof (intro allI impI ballI)
      fix i n d
      assume i: "i < length ?new" and n: "n \<in> set (?new ! i)" and d: "d \<in> set (adj g n)"
        and dr: "d \<in> set remaining"
      show "\<exists>j < i. d \<in> set (?new ! j)"
      proof (cases i)
        case 0
        with n have nl: "n \<in> set remaining" and z: "in_degree n = 0" by simp_all
        with "1.prems"(1) have "filter (\<lambda>x. x \<in> set remaining) (adj g n) = []"
          by (simp add: kahn_inv_def)
        with d dr show ?thesis by (auto simp: filter_empty_conv)
      next
        case (Suc k)
        with i n have k: "k < length new" and nk: "n \<in> set (new ! k)" by simp_all
        show ?thesis
        proof (cases "d \<in> set ?level")
          case True
          then have "d \<in> set (?new ! 0)" by simp
          with Suc show ?thesis by blast
        next
          case False
          with dr f have "d \<in> set (fst ?pl)" by simp
          with n4 k nk d obtain j where "j < k" and "d \<in> set (new ! j)" by blast
          then have "Suc j < i" and "d \<in> set (?new ! Suc j)" using Suc by simp_all
          then show ?thesis by blast
        qed
      qed
    qed
    from r s2 s3 s4 show ?thesis by blast
  qed
qed


section \<open>Result cache: hit, miss and overwrite\<close>

text \<open>
  C8. \<open>get(row_id, input_hash)\<close> returns a value exactly when an entry for the row
  exists whose stored \<open>input_hash\<close> is the queried one, and then it is that entry's
  stored \<open>output_hash\<close>; otherwise it returns nothing. After
  \<open>put(row_id, input_hash, output_hash)\<close> the entry of the row is the new one, whatever
  was stored before: the row hits on the new input hash with the new output hash, misses
  on every other input hash, and the other rows are untouched.
\<close>

theorem cache_contract:
  "(cache_get entries t h = Some v \<longleftrightarrow>
      (\<exists>entry. dict_get entries t = Some entry
         \<and> dict_get entry ''input_hash'' = Some (CStr h)
         \<and> dict_get entry ''output_hash'' = Some v))
   \<and> cache_get (cache_put entries t h out now) t h' = (if h' = h then Some (CStr out) else None)
   \<and> dict_get (cache_put entries t h out now) t
        = Some [(''input_hash'', CStr h), (''output_hash'', CStr out), (''timestamp'', CTime now)]
   \<and> (t' \<noteq> t \<longrightarrow> cache_get (cache_put entries t h out now) t' h' = cache_get entries t' h')"
proof -
  have get_iff: "cache_get entries t h = Some v \<longleftrightarrow>
      (\<exists>entry. dict_get entries t = Some entry
         \<and> dict_get entry ''input_hash'' = Some (CStr h)
         \<and> dict_get entry ''output_hash'' = Some v)"
    by (cases "dict_get entries t") (auto simp: cache_get_def dict_get_def)
  have hit: "cache_get (cache_put entries t h out now) t h' = (if h' = h then Some (CStr out) else None)"
    by (simp add: cache_get_def cache_put_def dict_get_set) (simp add: dict_get_def)
  have stored: "dict_get (cache_put entries t h out now) t
        = Some [(''input_hash'', CStr h), (''output_hash'', CStr out), (''timestamp'', CTime now)]"
    by (simp add: cache_put_def dict_get_set)
  have other: "t' \<noteq> t \<longrightarrow> cache_get (cache_put entries t h out now) t' h' = cache_get entries t' h'"
    by (simp add: cache_get_def cache_put_def dict_get_set)
  from get_iff hit stored other show ?thesis by blast
qed

theorem cache_contract_witness:
  "cache_get (cache_put [] ''lib'' ''aa'' ''bb'' 7) ''app'' ''aa'' = cache_get [] ''app'' ''aa''
   \<and> cache_get (cache_put (cache_put [] ''lib'' ''aa'' ''bb'' 7) ''lib'' ''cc'' ''dd'' 8) ''lib'' ''aa'' = None
   \<and> cache_get (cache_put (cache_put [] ''lib'' ''aa'' ''bb'' 7) ''lib'' ''cc'' ''dd'' 8) ''lib'' ''cc''
       = Some (CStr ''dd'')"
  using cache_contract [of "[]" "''lib''" "''aa''" "CStr ''bb''" "''bb''" 7 "''aa''" "''app''"]
        cache_contract [of "cache_put [] ''lib'' ''aa'' ''bb'' 7" "''lib''" "''cc''" "CStr ''dd''" "''dd''" 8 "''aa''" "''app''"]
        cache_contract [of "cache_put [] ''lib'' ''aa'' ''bb'' 7" "''lib''" "''cc''" "CStr ''dd''" "''dd''" 8 "''cc''" "''app''"]
  by simp


section \<open>Runtime lookup: the first record wins\<close>

text \<open>
  C10. When the rows list has a record whose id is the trimmed requested id,
  \<open>td(row_id)\<close> returns the row built from the first such record in list order; the
  records after it, with the same id or not, never influence the result.
\<close>

theorem td_first_wins:
  assumes "strip row_id \<noteq> []"
    and "\<forall>x \<in> set pre. (case x of None \<Rightarrow> True | Some r' \<Rightarrow> raw_id r' \<noteq> Some (strip row_id))"
    and "raw_id r = Some (strip row_id)"
  shows "td (Some (pre @ Some r # post)) row_id = Inr (td_row (strip row_id) r)"
proof -
  have "td_search (strip row_id) (pre @ Some r # post) = td_search (strip row_id) (Some r # post)"
    using assms(2) by (rule td_search_skip)
  also have "\<dots> = Inr (td_row (strip row_id) r)"
    using assms(3) by simp
  finally show ?thesis
    using assms(1) by (simp add: td_def)
qed

theorem td_first_wins_witness:
  "td (Some [None,
             Some \<lparr> raw_id = Some ''b'', raw_locked = False, raw_name = None, raw_args = None,
                    raw_expr = None, raw_scope = None, raw_depends = FOther, raw_sources = FOther \<rparr>,
             Some \<lparr> raw_id = Some ''a'', raw_locked = False, raw_name = None, raw_args = Some ''first'',
                    raw_expr = None, raw_scope = None, raw_depends = FOther, raw_sources = FOther \<rparr>,
             Some \<lparr> raw_id = Some ''a'', raw_locked = True, raw_name = None, raw_args = Some ''second'',
                    raw_expr = None, raw_scope = None, raw_depends = FOther, raw_sources = FOther \<rparr>])
      '' a ''
   = Inr \<lparr> rid = ''a'', locked = False, name = [], args = ''first'', expr = [], scope = None,
           depends = [], sources = [] \<rparr>"
proof -
  have s: "strip '' a '' = ''a''"
    by (simp add: strip_def is_space_def)
  have "td (Some ([None,
             Some \<lparr> raw_id = Some ''b'', raw_locked = False, raw_name = None, raw_args = None,
                    raw_expr = None, raw_scope = None, raw_depends = FOther, raw_sources = FOther \<rparr>]
            @ Some \<lparr> raw_id = Some ''a'', raw_locked = False, raw_name = None, raw_args = Some ''first'',
                    raw_expr = None, raw_scope = None, raw_depends = FOther, raw_sources = FOther \<rparr>
            # [Some \<lparr> raw_id = Some ''a'', raw_locked = True, raw_name = None, raw_args = Some ''second'',
                    raw_expr = None, raw_scope = None, raw_depends = FOther, raw_sources = FOther \<rparr>]))
      '' a ''
     = Inr (td_row (strip '' a '')
         \<lparr> raw_id = Some ''a'', raw_locked = False, raw_name = None, raw_args = Some ''first'',
           raw_expr = None, raw_scope = None, raw_depends = FOther, raw_sources = FOther \<rparr>)"
    by (rule td_first_wins) (simp_all add: s)
  then show ?thesis
    by (simp add: s td_row_def str_or_empty_def td_norm_field_def)
qed


section \<open>Duplicate ids in the command-line store\<close>

text \<open>
  C6. Two records with the id \<open>a\<close>, the first with args \<open>one\<close> and the second with args
  \<open>two\<close>: the duplicate check of the validation reports no \<open>DUPLICATE_ID\<close> issue, and
  the store holds the row built from the second record.
\<close>

theorem duplicate_id_not_reported:
  "validate_duplicates
     [Some \<lparr> raw_id = Some ''a'', raw_locked = False, raw_name = None, raw_args = Some ''one'',
             raw_expr = None, raw_scope = None, raw_depends = FList [], raw_sources = FList [] \<rparr>,
      Some \<lparr> raw_id = Some ''a'', raw_locked = False, raw_name = None, raw_args = Some ''two'',
             raw_expr = None, raw_scope = None, raw_depends = FList [], raw_sources = FList [] \<rparr>] = []
   \<and> cli_rows (load
     [Some \<lparr> raw_id = Some ''a'', raw_locked = False, raw_name = None, raw_args = Some ''one'',
             raw_expr = None, raw_scope = None, raw_depends = FList [], raw_sources = FList [] \<rparr>,
      Some \<lparr> raw_id = Some ''a'', raw_locked = False, raw_name = None, raw_args = Some ''two'',
             raw_expr = None, raw_scope = None, raw_depends = FList [], raw_sources = FList [] \<rparr>])
     = [(''a'', \<lparr> rid = ''a'', locked = False, name = [], args = ''two'', expr = [], scope = None,
                  depends = [], sources = [] \<rparr>)]"
  by (simp add: validate_duplicates_def load_def dict_values_def cli_row_def str_or_empty_def
      set_add_def)


section \<open>Edges of the loaded graph\<close>





section \<open>Mapping changed files to rows\<close>

text \<open>
  C9, as the mapper has it. A changed file path is mapped to a row exactly when one of the
  row's patterns matches the normalized path under the glob matcher, or the pattern ends in
  \<open>/*\<close>, \<open>/*.c\<close> or \<open>/*.py\<close> and the normalized path starts with the pattern's
  directory (the text before its last \<open>/\<close>) followed by \<open>/\<close>; the mapping lists, under
  the path as given, every row matched in this way. This holds for every glob matcher.
\<close>

theorem map_files_to_rows_rule:
  "r \<in> set (rows_of (map_files_to_rows fnm file_patterns changed_files) f)
   \<longleftrightarrow> f \<in> set changed_files
       \<and> (\<exists>patterns. (r, patterns) \<in> set file_patterns
            \<and> (\<exists>p \<in> set patterns.
                  fnm (normalize_path f) p
                  \<or> ((endswith p ''/*'' \<or> endswith p ''/*.c'' \<or> endswith p ''/*.py'')
                     \<and> startswith (normalize_path f) (rsplit_head CHR ''/'' p @ ''/''))))"
proof -
  have "rows_of [] f = []"
    by (simp add: rows_of_def dict_get_def)
  then show ?thesis
    unfolding map_files_to_rows_def
    by (simp add: map_files_rows row_matches_iff dir_suffix_def)
qed

theorem map_files_to_rows_rule_witness:
  "''r'' \<in> set (rows_of (map_files_to_rows fnmatch_wild
                            (extract_file_patterns [] ''r'' ''cc src/*.c -O2'')
                            [''src'' @ [CHR 0x5C] @ ''gen/y.py''])
                          (''src'' @ [CHR 0x5C] @ ''gen/y.py''))
   \<and> \<not> fnmatch_wild ''src/gen/y.py'' ''src/*.c''"
proof -
  have fp: "extract_file_patterns [] ''r'' ''cc src/*.c -O2'' = [(''r'', [''src/*.c''])]"
    by code_simp
  have n: "normalize_path (''src'' @ [CHR 0x5C] @ ''gen/y.py'') = ''src/gen/y.py''"
    by code_simp
  have e: "endswith ''src/*.c'' ''/*.c''"
    by code_simp
  have s: "startswith ''src/gen/y.py'' (rsplit_head CHR ''/'' ''src/*.c'' @ ''/'')"
    by code_simp
  have f: "\<not> fnmatch_wild ''src/gen/y.py'' ''src/*.c''"
    by code_simp
  show ?thesis
    using map_files_to_rows_rule [of "''r''" fnmatch_wild "[(''r'', [''src/*.c''])]"
            "[''src'' @ [CHR 0x5C] @ ''gen/y.py'']" "''src'' @ [CHR 0x5C] @ ''gen/y.py''"]
          e s f
    unfolding fp n by simp
qed

text \<open>
  A pattern whose last segment is another wildcard, such as \<open>docs/*.md\<close>, names the
  directory \<open>docs\<close> as well, and \<open>docs/a/notes.txt\<close> lies under it; the glob does not
  match the path, the pattern has none of the three endings, and the file is mapped to no
  row.
\<close>

theorem wildcard_suffix_not_mapped:
  "spec_matches fnmatch_wild (normalize_path ''docs/a/notes.txt'') ''docs/*.md''
   \<and> map_files_to_rows fnmatch_wild (extract_file_patterns [] ''r'' ''render docs/*.md'')
        [''docs/a/notes.txt''] = []"
  by code_simp


section \<open>Cycle detection finds a cycle and reports closed walks\<close>



end
